theory Spec2Isabelle
  imports Complex_Main "HOL-Library.Word" "HOL-Library.Log_Nat"
begin

section \<open>Data model (internal/generator/segment.go)\<close>

type_synonym int64 = "64 word"
type_synonym int32 = "32 word"

text \<open>
  \<^verbatim>\<open>type Segment struct { Min, Max, Current int64 }\<close>.  The fields are signed 64-bit
  integers: arithmetic on them wraps, and they are compared through \<open>sint\<close>.
\<close>

record Segment =
  Min_seg :: int64
  Max_seg :: int64
  Current :: int64

text \<open>The error values of the package, one constructor for each \<^verbatim>\<open>fmt.Errorf\<close> site.\<close>

datatype error =
    ConnectFailed
  | NoAvailableSegment
  | FailedToSwitch error
  | RetryFailed
  | SwitchRetriesExhausted error
  | FailedToLoadNext
  | LoadSegmentFailed
  | InvalidMaxId int64

text \<open>
  What one \<^verbatim>\<open>FindOneAndUpdate(...).Decode(&result)\<close> round trip to the store gives back:
  an error (time-out, connection, decoding), or the document's \<^verbatim>\<open>maxId\<close> after the
  increment.  The store is outside the package, so its answers are a parameter
  \<open>rs\<close>: \<open>rs k\<close> is the answer to the \<open>k\<close>-th round trip.
\<close>

datatype store_reply = StoreErr | MaxID int64

type_synonym range_store = "nat \<Rightarrow> store_reply"

text \<open>
  \<^verbatim>\<open>SegmentIDGenerator\<close>.  The two atomic pointers are modelled by the segment they point
  to (\<open>None\<close> is \<^verbatim>\<open>nil\<close>).  When one goroutine runs an operation to its end, the two
  slots never point to the same segment while a cursor is advanced: the constructor
  and the promotion copy the standby pointer into the active slot and clear the
  standby slot before the next increment.  So a segment is only ever reached through
  one slot, and copying the segment is copying the pointer.  \<^verbatim>\<open>mongoClient\<close> is
  represented by the store's answers.
\<close>

record SegmentIDGenerator =
  currentSegment :: "Segment option"
  nextSegment :: "Segment option"
  bizTag :: string
  step :: int32
  loadingFlag :: bool

text \<open>
  A generator together with the effects of its run on the outside: the number of
  round trips made to the store so far, the durations (in milliseconds) of the
  \<^verbatim>\<open>time.Sleep\<close> calls in order, and the number of \<^verbatim>\<open>go g.loadNextSegment()\<close>
  goroutines dispatched.  A dispatched goroutine runs \<open>loadNextSegment\<close> at some later
  point chosen by the scheduler; the dispatching call does not wait for it.
\<close>

record world = SegmentIDGenerator +
  store_calls :: nat
  slept :: "nat list"
  spawned :: nat

section \<open>The operations\<close>

text \<open>
  \<^verbatim>\<open>loadNextSegment\<close>, the part that runs with the loading guard held (after the
  successful compare-and-swap, before the deferred release).
\<close>

definition loadNextSegment_locked ::
  "range_store \<Rightarrow> world \<Rightarrow> error option \<times> world" where
  "loadNextSegment_locked rs g =
     (let g1 = g\<lparr>store_calls := Suc (store_calls g)\<rparr> in
      case rs (store_calls g) of
        StoreErr \<Rightarrow> (Some LoadSegmentFailed, g1)
      | MaxID maxId \<Rightarrow>
          if sint maxId \<le> 0 then (Some (InvalidMaxId maxId), g1)
          else (None, g1\<lparr>nextSegment := Some
                 \<lparr>Min_seg = maxId - scast (step g) + 1,
                  Max_seg = maxId,
                  Current = maxId - scast (step g)\<rparr>\<rparr>))"

definition loadNextSegment ::
  "range_store \<Rightarrow> world \<Rightarrow> error option \<times> world" where
  "loadNextSegment rs g =
     (if loadingFlag g then (None, g)
      else case loadNextSegment_locked rs (g\<lparr>loadingFlag := True\<rparr>) of
             (err, g') \<Rightarrow> (err, g'\<lparr>loadingFlag := False\<rparr>))"

text \<open>
  \<^verbatim>\<open>float64(x)\<close> for an \<^verbatim>\<open>int64\<close>: the nearest value with a 53-bit significand, ties
  to even.  The result is an integer, returned as such.
\<close>

definition float64_of_int :: "int \<Rightarrow> int" where
  "float64_of_int x =
     (let a = \<bar>x\<bar> in
      if a < 2 ^ 53 then x
      else let e = floorlog 2 (nat a) - 53;
               q = a div 2 ^ e;
               r = a mod 2 ^ e;
               q' = (if 2 * r > 2 ^ e \<or> (2 * r = 2 ^ e \<and> odd q) then q + 1 else q)
           in sgn x * q' * 2 ^ e)"

text \<open>
  \<^verbatim>\<open>a / b >= 0.8\<close> on \<^verbatim>\<open>float64\<close> values \<open>a\<close>, \<open>b\<close> that are integers of magnitude at most
  \<open>2 ^ 63\<close>.  The literal \<^verbatim>\<open>0.8\<close> is the double \<open>7205759403792794 / 2 ^ 53\<close>, whose
  significand is even; the quotient is rounded to nearest, ties to even, so the
  rounded quotient reaches the literal exactly when the real quotient reaches the
  midpoint below it, \<open>14411518807585587 / 2 ^ 54\<close>.  Division by zero does not panic on
  floats: it gives \<^verbatim>\<open>+Inf\<close> for a positive dividend (the comparison holds), and
  \<^verbatim>\<open>-Inf\<close> or \<^verbatim>\<open>NaN\<close> otherwise (it does not).
\<close>

definition float64_div_ge_08 :: "int \<Rightarrow> int \<Rightarrow> bool" where
  "float64_div_ge_08 a b =
     (if b = 0 then 0 < a
      else 14411518807585587 / 2 ^ 54 \<le> real_of_int a / real_of_int b)"

definition shouldLoadNext :: "world \<Rightarrow> Segment option \<Rightarrow> bool" where
  "shouldLoadNext g segment =
     (case segment of
        None \<Rightarrow> True
      | Some seg \<Rightarrow>
          (let used = Current seg - Min_seg seg + 1;
               total = Max_seg seg - Min_seg seg + 1
           in float64_div_ge_08 (float64_of_int (sint used)) (float64_of_int (sint total))
              \<and> nextSegment g = None
              \<and> \<not> loadingFlag g))"

text \<open>
  The retry loop of \<^verbatim>\<open>switchSegment\<close>, from iteration \<open>i\<close> on.  \<open>Some err\<close> is the
  \<^verbatim>\<open>return\<close> inside the loop; \<open>None\<close> means the loop was left (by \<^verbatim>\<open>break\<close> or because
  \<open>i\<close> reached \<^verbatim>\<open>maxRetries\<close>) and the function goes on after it.
\<close>

definition maxRetries :: nat where
  "maxRetries = 3"

function switchSegment_loop :: "range_store \<Rightarrow> nat \<Rightarrow> world \<Rightarrow> error option \<times> world" where
  "switchSegment_loop rs i g =
     (if i < maxRetries then
        if nextSegment g \<noteq> None then (None, g)
        else case loadNextSegment rs g of
               (Some err, g') \<Rightarrow>
                 if i = maxRetries - 1 then (Some (SwitchRetriesExhausted err), g')
                 else switchSegment_loop rs (i + 1) (g'\<lparr>slept := slept g' @ [100 * (i + 1)]\<rparr>)
             | (None, g') \<Rightarrow> switchSegment_loop rs (i + 1) g'
      else (None, g))"
  by pat_completeness auto
termination
  by (relation "measure (\<lambda>(rs, i, g). maxRetries - i)") auto

declare switchSegment_loop.simps [simp del]

definition switchSegment :: "range_store \<Rightarrow> world \<Rightarrow> error option \<times> world" where
  "switchSegment rs g =
     (case switchSegment_loop rs 0 g of
        (Some err, g') \<Rightarrow> (Some err, g')
      | (None, g') \<Rightarrow>
          if nextSegment g' = None then (Some FailedToLoadNext, g')
          else (None, g'\<lparr>currentSegment := nextSegment g', nextSegment := None\<rparr>))"

text \<open>
  \<^verbatim>\<open>NextID\<close>, from iteration \<open>i\<close> of its loop on.  \<^verbatim>\<open>atomic.AddInt64\<close> advances the cursor
  of the active segment and returns the new value.
\<close>

function NextID_loop :: "range_store \<Rightarrow> nat \<Rightarrow> world \<Rightarrow> (error + int64) \<times> world" where
  "NextID_loop rs i g =
     (if i < 2 then
        case currentSegment g of
          None \<Rightarrow> (Inl NoAvailableSegment, g)
        | Some current \<Rightarrow>
            (let id = Current current + 1;
                 current' = current\<lparr>Current := id\<rparr>;
                 g1 = g\<lparr>currentSegment := Some current'\<rparr>
             in if sint id \<le> sint (Max_seg current) then
                  (Inr id, if shouldLoadNext g1 (Some current')
                           then g1\<lparr>spawned := Suc (spawned g1)\<rparr> else g1)
                else case switchSegment rs g1 of
                       (Some err, g2) \<Rightarrow> (Inl (FailedToSwitch err), g2)
                     | (None, g2) \<Rightarrow> NextID_loop rs (i + 1) g2)
      else (Inl RetryFailed, g))"
  by pat_completeness auto
termination
  by (relation "measure (\<lambda>(rs, i, g). 2 - i)") auto

declare NextID_loop.simps [simp del]

definition NextID :: "range_store \<Rightarrow> world \<Rightarrow> (error + int64) \<times> world" where
  "NextID rs g = NextID_loop rs 0 g"

text \<open>
  \<^verbatim>\<open>NewSegmentIDGenerator\<close>.  \<open>connect\<close> tells whether \<^verbatim>\<open>mongo.Connect\<close> succeeds for the
  URI.  The new generator has made no round trip yet.
\<close>

definition NewSegmentIDGenerator ::
  "(string \<Rightarrow> bool) \<Rightarrow> range_store \<Rightarrow> string \<Rightarrow> string \<Rightarrow> error + world" where
  "NewSegmentIDGenerator connect rs mongoURI tag =
     (if \<not> connect mongoURI then Inl ConnectFailed
      else let generator =
                 \<lparr>currentSegment = None, nextSegment = None, bizTag = tag, step = 1000,
                  loadingFlag = False, store_calls = 0, slept = [], spawned = 0\<rparr>
           in case loadNextSegment rs generator of
                (Some err, g') \<Rightarrow> Inl err
              | (None, g') \<Rightarrow>
                  Inr (g'\<lparr>currentSegment := nextSegment g', nextSegment := None\<rparr>))"

section \<open>The promotion of the standby segment, one atomic operation at a time\<close>

text \<open>
  The end of \<^verbatim>\<open>switchSegment\<close> (from the test \<^verbatim>\<open>g.nextSegment.Load() == nil\<close> after the
  loop to \<^verbatim>\<open>return nil\<close>) as the sequence of \<^verbatim>\<open>sync/atomic\<close> operations it performs.
  Each operation is one step of a goroutine; a control point records where the
  goroutine is and the pointer it has loaded.  Operations of \<^verbatim>\<open>sync/atomic\<close> are
  sequentially consistent, so that a run of several goroutines is an interleaving of
  their steps.  No step advances a cursor, so the loaded pointer is represented by the
  segment it points to, as in the slots.
\<close>

datatype promote_pc =
    Check_standby
  | Load_standby
  | Store_active "Segment option"
  | Clear_standby
  | Returned "error option"

fun promote_step :: "world \<Rightarrow> promote_pc \<Rightarrow> world \<times> promote_pc" where
  "promote_step g Check_standby =
     (g, if nextSegment g = None then Returned (Some FailedToLoadNext) else Load_standby)"
| "promote_step g Load_standby = (g, Store_active (nextSegment g))"
| "promote_step g (Store_active p) = (g\<lparr>currentSegment := p\<rparr>, Clear_standby)"
| "promote_step g Clear_standby = (g\<lparr>nextSegment := None\<rparr>, Returned None)"
| "promote_step g (Returned r) = (g, Returned r)"

text \<open>
  Two goroutines in the promotion; the schedule says which one takes the next step
  (\<open>False\<close> the first, \<open>True\<close> the second).
\<close>

fun interleave ::
  "bool list \<Rightarrow> world \<times> promote_pc \<times> promote_pc \<Rightarrow> world \<times> promote_pc \<times> promote_pc" where
  "interleave [] st = st"
| "interleave (b # bs) (g, pa, pb) =
     (if b then (case promote_step g pb of (g', pb') \<Rightarrow> interleave bs (g', pa, pb'))
      else (case promote_step g pa of (g', pa') \<Rightarrow> interleave bs (g', pa', pb)))"

section \<open>Invariants\<close>

text \<open>The number of identifiers between \<open>Min\<close> and \<open>Max\<close>, both included.\<close>

definition seg_width :: "Segment \<Rightarrow> int" where
  "seg_width s = sint (Max_seg s) - sint (Min_seg s) + 1"

text \<open>The step is 1000 and both slots hold segments of 1000 identifiers.\<close>

definition width_ok :: "world \<Rightarrow> bool" where
  "width_ok g \<longleftrightarrow>
     step g = 1000
     \<and> (case currentSegment g of None \<Rightarrow> True | Some s \<Rightarrow> seg_width s = 1000)
     \<and> (case nextSegment g of None \<Rightarrow> True | Some s \<Rightarrow> seg_width s = 1000)"

text \<open>
  The cursor of a segment starts one below \<open>Min\<close> and is only ever incremented; it has
  not reached the largest \<^verbatim>\<open>int64\<close>, where the next increment would wrap around.
\<close>

definition cursor_ok :: "Segment \<Rightarrow> bool" where
  "cursor_ok s \<longleftrightarrow> sint (Min_seg s) - 1 \<le> sint (Current s) \<and> sint (Current s) < 2 ^ 63 - 1"

definition gen_ok :: "world \<Rightarrow> bool" where
  "gen_ok g \<longleftrightarrow>
     width_ok g
     \<and> (case currentSegment g of None \<Rightarrow> True | Some s \<Rightarrow> cursor_ok s)
     \<and> (case nextSegment g of None \<Rightarrow> True | Some s \<Rightarrow> cursor_ok s)"

text \<open>An answer of the store that \<^verbatim>\<open>loadNextSegment\<close> turns into an error.\<close>

fun refused :: "store_reply \<Rightarrow> bool" where
  "refused StoreErr = True"
| "refused (MaxID maxId) = (sint maxId \<le> 0)"

section \<open>A store and a generator to run the operations on\<close>

text \<open>
  A store whose counter starts at 0 and is incremented by this generator alone: the
  \<open>k\<close>-th round trip answers \<open>1000 * (k + 1)\<close>.  \<open>down_store\<close> is the same store,
  unreachable during round trips 1, 2 and 3.
\<close>

definition fresh_store :: range_store where
  "fresh_store k = MaxID (1000 * (word_of_nat k + 1))"

definition down_store :: range_store where
  "down_store k = (if k \<in> {1, 2, 3} then StoreErr else fresh_store k)"

text \<open>
  A generator that has made one round trip and holds the segment 1 .. 1000, with the
  cursor at \<open>c\<close> and the standby slot holding \<open>standby\<close>.
\<close>

definition serving :: "int64 \<Rightarrow> Segment option \<Rightarrow> world" where
  "serving c standby =
     \<lparr>currentSegment = Some \<lparr>Min_seg = 1, Max_seg = 1000, Current = c\<rparr>,
      nextSegment = standby, bizTag = ''t'', step = 1000, loadingFlag = False,
      store_calls = 1, slept = [], spawned = 0\<rparr>"

definition second_segment :: Segment where
  "second_segment = \<lparr>Min_seg = 1001, Max_seg = 2000, Current = 1000\<rparr>"

section \<open>Arithmetic of signed 64-bit values\<close>

lemma sint_succ: "sint (c::int64) < sint (m::int64) \<Longrightarrow> sint (c + 1) = sint c + 1"
proof -
  assume a: "sint c < sint m"
  have "sint m < 2 ^ 63" using sint_lt [of m] by simp
  moreover have "- (2 ^ 63) \<le> sint c" using sint_ge [of c] by simp
  ultimately have "- (2 ^ 63) \<le> sint c + 1" "sint c + 1 < 2 ^ 63" using a by linarith+
  then show ?thesis
    by (simp add: sint_word_ariths signed_take_bit_int_eq_self)
qed

lemma sint_sub_step: "0 < sint (m::int64) \<Longrightarrow> sint (m - 1000) = sint m - 1000"
proof -
  assume a: "0 < sint m"
  have "sint m < 2 ^ 63" using sint_lt [of m] by simp
  then have "- (2 ^ 63) \<le> sint m - 1000" "sint m - 1000 < 2 ^ 63" using a by simp_all
  then show ?thesis
    by (simp add: sint_word_ariths signed_take_bit_int_eq_self)
qed

lemma sint_seg_min: "0 < sint (m::int64) \<Longrightarrow> sint (m - 1000 + 1) = sint m - 999"
proof -
  assume a: "0 < sint m"
  have "sint m < 2 ^ 63" using sint_lt [of m] by simp
  then have "- (2 ^ 63) \<le> sint m - 999" "sint m - 999 < 2 ^ 63" using a by simp_all
  moreover have "m - 1000 + 1 = m - 999" by simp
  ultimately show ?thesis
    by (simp add: sint_word_ariths signed_take_bit_int_eq_self)
qed

lemma sint_sub_999: "0 < sint (m::int64) \<Longrightarrow> sint (m - 999) = sint m - 999"
  using sint_seg_min [of m] by simp

lemma sint_succ_bound: "sint (c::int64) < 2 ^ 63 - 1 \<Longrightarrow> sint (c + 1) = sint c + 1"
proof -
  assume a: "sint c < 2 ^ 63 - 1"
  have "- (2 ^ 63) \<le> sint c" using sint_ge [of c] by simp
  with a have "- (2 ^ 63) \<le> sint c + 1" "sint c + 1 < 2 ^ 63" by simp_all
  then show ?thesis
    by (simp add: sint_word_ariths signed_take_bit_int_eq_self)
qed

lemma sint_succ_exhausted:
  assumes "sint (m::int64) \<le> sint (c::int64)" and "sint c < 2 ^ 63 - 1"
  shows "sint (c + 1) = sint c + 1" and "\<not> sint (c + 1) \<le> sint m"
proof -
  have "- (2 ^ 63) \<le> sint c" using sint_ge [of c] by simp
  with assms(2) have "- (2 ^ 63) \<le> sint c + 1" "sint c + 1 < 2 ^ 63" by simp_all
  then show "sint (c + 1) = sint c + 1"
    by (simp add: sint_word_ariths signed_take_bit_int_eq_self)
  with assms(1) show "\<not> sint (c + 1) \<le> sint m" by simp
qed

lemma sint_used:
  fixes v mn :: int64
  assumes "- (2 ^ 63) \<le> sint v - sint mn + 1" and "sint v - sint mn + 1 < 2 ^ 63"
  shows "sint (v - mn + 1) = sint v - sint mn + 1"
proof -
  have "v - mn + 1 = word_of_int (sint v - sint mn + 1)" by simp
  then have "sint (v - mn + 1) = signed_take_bit 63 (sint v - sint mn + 1)"
    by (simp only: sint_sbintrunc') simp
  with assms show ?thesis by (simp add: signed_take_bit_int_eq_self)
qed

section \<open>Refill: \<open>loadNextSegment\<close>\<close>

lemma loadingFlag_False_id: "\<not> loadingFlag g \<Longrightarrow> g\<lparr>loadingFlag := False\<rparr> = (g::world)"
  by (cases g) simp

lemma loadNextSegment_held: "loadingFlag g \<Longrightarrow> loadNextSegment rs g = (None, g)"
  by (simp add: loadNextSegment_def)

lemma loadNextSegment_held_funpow:
  "loadingFlag g \<Longrightarrow> ((\<lambda>w. snd (loadNextSegment rs w)) ^^ n) g = g"
  by (induction n) (simp_all add: loadNextSegment_held)

lemma loadNextSegment_locked_calls:
  "store_calls (snd (loadNextSegment_locked rs g)) = Suc (store_calls g)"
  by (simp add: loadNextSegment_locked_def Let_def split: store_reply.splits)

lemma loadNextSegment_frame:
  "loadNextSegment rs g = (r, g') \<Longrightarrow>
     currentSegment g' = currentSegment g \<and> loadingFlag g' = loadingFlag g \<and> step g' = step g
     \<and> slept g' = slept g \<and> spawned g' = spawned g
     \<and> store_calls g \<le> store_calls g' \<and> store_calls g' \<le> Suc (store_calls g)"
  by (auto simp: loadNextSegment_def loadNextSegment_locked_def Let_def
           split: if_splits store_reply.splits)

lemma loadNextSegment_error:
  "loadNextSegment rs g = (Some e, g') \<Longrightarrow>
     \<not> loadingFlag g \<and> nextSegment g' = nextSegment g \<and> store_calls g' = Suc (store_calls g)
     \<and> refused (rs (store_calls g))"
  by (auto simp: loadNextSegment_def loadNextSegment_locked_def Let_def
           split: if_splits store_reply.splits)

lemma loadNextSegment_success:
  "loadNextSegment rs g = (None, g') \<Longrightarrow>
     (loadingFlag g \<and> g' = g)
     \<or> (\<not> loadingFlag g \<and> store_calls g' = Suc (store_calls g)
        \<and> (\<exists>m. rs (store_calls g) = MaxID m \<and> 0 < sint m
               \<and> nextSegment g' = Some \<lparr>Min_seg = m - scast (step g) + 1, Max_seg = m,
                                         Current = m - scast (step g)\<rparr>))"
  by (auto simp: loadNextSegment_def loadNextSegment_locked_def Let_def
           split: if_splits store_reply.splits)

lemma loadNextSegment_valid:
  assumes "\<not> loadingFlag g" and "rs (store_calls g) = MaxID m" and "0 < sint m"
  shows "loadNextSegment rs g =
           (None, g\<lparr>nextSegment := Some \<lparr>Min_seg = m - scast (step g) + 1, Max_seg = m,
                                          Current = m - scast (step g)\<rparr>,
                      store_calls := Suc (store_calls g)\<rparr>)"
proof -
  have "g\<lparr>loadingFlag := False\<rparr> = g" using assms(1) by (rule loadingFlag_False_id)
  then show ?thesis
    using assms by (cases g) (simp add: loadNextSegment_def loadNextSegment_locked_def)
qed

text \<open>
  C5.  A refill that takes the guard and gets \<open>newMax > 0\<close> from the store returns no
  error and leaves the generator as it was but for the round trip counted and the
  standby slot, which holds the segment with \<open>Min = newMax - step + 1\<close>,
  \<open>Max = newMax\<close> and \<open>Current = newMax - step\<close>, whatever it held before.
\<close>

theorem loadNextSegment_installs_segment:
  assumes "\<not> loadingFlag g" and "rs (store_calls g) = MaxID newMax" and "0 < sint newMax"
  shows "loadNextSegment rs g =
           (None, g\<lparr>nextSegment := Some \<lparr>Min_seg = newMax - scast (step g) + 1,
                                          Max_seg = newMax,
                                          Current = newMax - scast (step g)\<rparr>,
                      store_calls := Suc (store_calls g)\<rparr>)"
proof -
  have "g\<lparr>loadingFlag := False\<rparr> = g" using assms(1) by (rule loadingFlag_False_id)
  then show ?thesis
    using assms by (cases g) (simp add: loadNextSegment_def loadNextSegment_locked_def)
qed

theorem loadNextSegment_installs_segment_witness:
  "loadNextSegment fresh_store (serving 800 (Some \<lparr>Min_seg = 7, Max_seg = 9, Current = 8\<rparr>)) =
     (None, (serving 800 (Some second_segment))\<lparr>store_calls := 2\<rparr>)"
proof -
  have "\<not> loadingFlag (serving 800 (Some \<lparr>Min_seg = 7, Max_seg = 9, Current = 8\<rparr>))"
    by (simp add: serving_def)
  moreover have
    "fresh_store (store_calls (serving 800 (Some \<lparr>Min_seg = 7, Max_seg = 9, Current = 8\<rparr>))) = MaxID 2000"
    by (simp add: serving_def fresh_store_def)
  moreover have "0 < sint (2000 :: int64)" by simp
  ultimately show ?thesis
    using loadNextSegment_installs_segment
      [of "serving 800 (Some \<lparr>Min_seg = 7, Max_seg = 9, Current = 8\<rparr>)" fresh_store 2000]
    by (simp add: serving_def second_segment_def)
qed

text \<open>
  C6.  A refill that takes the guard and gets \<open>newMax \<le> 0\<close> from the store returns the
  error for an invalid \<open>maxId\<close>; only the round trip is counted, and the standby slot
  holds what it held before.
\<close>

theorem loadNextSegment_rejects_nonpositive:
  assumes "\<not> loadingFlag g" and "rs (store_calls g) = MaxID newMax" and "sint newMax \<le> 0"
  shows "loadNextSegment rs g =
           (Some (InvalidMaxId newMax), g\<lparr>store_calls := Suc (store_calls g)\<rparr>)
         \<and> nextSegment (snd (loadNextSegment rs g)) = nextSegment g"
  using assms by (cases g) (simp add: loadNextSegment_def loadNextSegment_locked_def)

theorem loadNextSegment_rejects_nonpositive_witness:
  "loadNextSegment (\<lambda>k. MaxID (- 1000)) (serving 800 (Some second_segment)) =
     (Some (InvalidMaxId (- 1000)), (serving 800 (Some second_segment))\<lparr>store_calls := 2\<rparr>)
   \<and> nextSegment (snd (loadNextSegment (\<lambda>k. MaxID (- 1000)) (serving 800 (Some second_segment))))
       = Some second_segment"
proof -
  have "\<not> loadingFlag (serving 800 (Some second_segment))"
    by (simp add: serving_def)
  moreover have "sint (- 1000 :: int64) \<le> 0" by simp
  ultimately show ?thesis
    using loadNextSegment_rejects_nonpositive
      [of "serving 800 (Some second_segment)" "\<lambda>k. MaxID (- 1000)" "- 1000"]
    by (simp add: serving_def)
qed

text \<open>
  C8.  A refill called while the guard is held returns no error and changes nothing:
  no round trip to the store, the standby slot untouched.  So any number \<open>n\<close> of
  refills that overlap the one holding the guard leave the generator as it is, and
  when the holder's own round trip has been made it is the only one.
\<close>

theorem loadNextSegment_coalesces:
  assumes "loadingFlag g"
  shows "loadNextSegment rs g = (None, g)
         \<and> ((\<lambda>w. snd (loadNextSegment rs w)) ^^ n) g = g
         \<and> store_calls (snd (loadNextSegment_locked rs
                (((\<lambda>w. snd (loadNextSegment rs w)) ^^ n) g))) = Suc (store_calls g)"
  using assms
  by (simp add: loadNextSegment_held loadNextSegment_held_funpow loadNextSegment_locked_calls)

theorem loadNextSegment_coalesces_witness:
  "loadNextSegment fresh_store ((serving 800 None)\<lparr>loadingFlag := True\<rparr>)
     = (None, (serving 800 None)\<lparr>loadingFlag := True\<rparr>)
   \<and> ((\<lambda>w. snd (loadNextSegment fresh_store w)) ^^ 5) ((serving 800 None)\<lparr>loadingFlag := True\<rparr>)
     = (serving 800 None)\<lparr>loadingFlag := True\<rparr>
   \<and> store_calls (snd (loadNextSegment_locked fresh_store
        (((\<lambda>w. snd (loadNextSegment fresh_store w)) ^^ 5) ((serving 800 None)\<lparr>loadingFlag := True\<rparr>))))
     = 2"
proof -
  have held: "loadingFlag ((serving 800 None)\<lparr>loadingFlag := True\<rparr>)" by simp
  have calls: "Suc (store_calls ((serving 800 None)\<lparr>loadingFlag := True\<rparr>)) = 2"
    by (simp add: serving_def)
  show ?thesis
    unfolding calls [symmetric]
    by (rule loadNextSegment_coalesces [OF held])
qed

section \<open>The retry loop of \<open>switchSegment\<close>\<close>

lemma loop_unfold:
  "switchSegment_loop rs i g =
     (if i < 3 then
        if nextSegment g \<noteq> None then (None, g)
        else case loadNextSegment rs g of
               (Some err, g') \<Rightarrow>
                 if i = 2 then (Some (SwitchRetriesExhausted err), g')
                 else switchSegment_loop rs (i + 1) (g'\<lparr>slept := slept g' @ [100 * (i + 1)]\<rparr>)
             | (None, g') \<Rightarrow> switchSegment_loop rs (i + 1) g'
      else (None, g))"
  by (subst switchSegment_loop.simps) (simp add: maxRetries_def split: prod.splits option.splits)

lemma loop_done: "\<not> i < 3 \<Longrightarrow> switchSegment_loop rs i g = (None, g)"
  by (subst loop_unfold) simp

lemma loop_break:
  "nextSegment g \<noteq> None \<Longrightarrow> switchSegment_loop rs i g = (None, g)"
  by (subst loop_unfold) simp

lemma loop_loaded:
  "i < 3 \<Longrightarrow> nextSegment g = None \<Longrightarrow> loadNextSegment rs g = (None, g1) \<Longrightarrow>
     switchSegment_loop rs i g = switchSegment_loop rs (i + 1) g1"
  by (subst loop_unfold) simp

lemma loop_last:
  "nextSegment g = None \<Longrightarrow> loadNextSegment rs g = (Some e, g1) \<Longrightarrow>
     switchSegment_loop rs 2 g = (Some (SwitchRetriesExhausted e), g1)"
  by (subst loop_unfold) simp

lemma loop_retry:
  "i < 2 \<Longrightarrow> nextSegment g = None \<Longrightarrow> loadNextSegment rs g = (Some e, g1) \<Longrightarrow>
     switchSegment_loop rs i g =
       switchSegment_loop rs (i + 1) (g1\<lparr>slept := slept g1 @ [100 * (i + 1)]\<rparr>)"
  by (subst loop_unfold) simp

lemma loop_held: "loadingFlag g \<Longrightarrow> switchSegment_loop rs i g = (None, g)"
proof (induction rs i g rule: switchSegment_loop.induct)
  case (1 rs i g)
  show ?case
  proof (cases "i < 3 \<and> nextSegment g = None")
    case False
    then show ?thesis using loop_done [of i rs g] loop_break [of g rs i] by blast
  next
    case True
    then have i: "i < 3" and n: "nextSegment g = None" by simp_all
    have i': "i < maxRetries" and n': "\<not> nextSegment g \<noteq> None"
      using i n by (simp_all add: maxRetries_def)
    have l: "loadNextSegment rs g = (None, g)" using "1.prems" by (rule loadNextSegment_held)
    from "1.IH"(1) [OF i' n' l [symmetric] refl "1.prems"] loop_loaded [OF i n l]
    show ?thesis by simp
  qed
qed

lemma loop_after_None:
  assumes "i < 3" and "nextSegment g = None" and "loadNextSegment rs g = (None, g1)"
  shows "switchSegment_loop rs i g = (None, g1)"
proof -
  from loadNextSegment_success [OF assms(3)]
  have "loadingFlag g1 \<or> nextSegment g1 \<noteq> None"
    using loadNextSegment_frame [OF assms(3)] by auto
  then have "switchSegment_loop rs (i + 1) g1 = (None, g1)"
    using loop_held [of g1 rs "i + 1"] loop_break [of g1 rs "i + 1"] by blast
  with loop_loaded [OF assms] show ?thesis by simp
qed

lemma backoff_cons: "i < 2 \<Longrightarrow> k \<le> 2 \<Longrightarrow>
  \<exists>k'. [100 * (i + 1)] @ map (\<lambda>j. 100 * (j + 1)) [i + 1..<k] = map (\<lambda>j. 100 * (j + 1)) [i..<k'] \<and> k' \<le> (2::nat)"
proof (cases "i + 1 \<le> k")
  case True
  assume "i < 2" "k \<le> 2"
  with True have "[i..<k] = i # [i + 1..<k]" by (simp add: upt_conv_Cons)
  with \<open>k \<le> 2\<close> show ?thesis by (intro exI [of _ k]) simp
next
  case False
  assume "i < 2" "k \<le> 2"
  with False show ?thesis by (intro exI [of _ "i + 1"]) simp
qed

text \<open>The effects of the retry loop, whatever it returns.\<close>

lemma switchSegment_loop_effects:
  "switchSegment_loop rs i g = (r, g') \<Longrightarrow>
     currentSegment g' = currentSegment g \<and> loadingFlag g' = loadingFlag g \<and> step g' = step g
     \<and> spawned g' = spawned g \<and> store_calls g \<le> store_calls g'
     \<and> store_calls g' \<le> store_calls g + (3 - i)
     \<and> (\<exists>k. slept g' = slept g @ map (\<lambda>j. 100 * (j + 1)) [i..<k] \<and> k \<le> 2)
     \<and> (nextSegment g' = nextSegment g
          \<or> (\<exists>m. 0 < sint m
                 \<and> nextSegment g' = Some \<lparr>Min_seg = m - scast (step g) + 1, Max_seg = m,
                                           Current = m - scast (step g)\<rparr>))"
proof (induction rs i g arbitrary: r g' rule: switchSegment_loop.induct)
  case (1 rs i g)
  show ?case
  proof (cases "i < 3 \<and> nextSegment g = None")
    case False
    then have "switchSegment_loop rs i g = (None, g)"
      using loop_done [of i rs g] loop_break [of g rs i] by blast
    then have "g' = g" using "1.prems" by simp
    then show ?thesis by (auto intro: exI [of _ 0])
  next
    case True
    then have i: "i < 3" and n: "nextSegment g = None" by simp_all
    have i': "i < maxRetries" and n': "\<not> nextSegment g \<noteq> None"
      using i n by (simp_all add: maxRetries_def)
    obtain e g1 where l: "loadNextSegment rs g = (e, g1)" by (cases "loadNextSegment rs g")
    note f = loadNextSegment_frame [OF l]
    show ?thesis
    proof (cases e)
      case None
      with loop_after_None [OF i n] l "1.prems" have g': "g' = g1" by simp
      have "\<exists>k. slept g1 = slept g @ map (\<lambda>j. 100 * (j + 1)) [i..<k] \<and> k \<le> 2"
        using f by (intro exI [of _ 0]) simp
      moreover have "nextSegment g1 = nextSegment g
          \<or> (\<exists>m. 0 < sint m
                 \<and> nextSegment g1 = Some \<lparr>Min_seg = m - scast (step g) + 1, Max_seg = m,
                                           Current = m - scast (step g)\<rparr>)"
        using loadNextSegment_success [of rs g g1] l None by auto
      ultimately show ?thesis using f g' i by auto
    next
      case (Some err)
      note er = loadNextSegment_error [of rs g err g1]
      show ?thesis
      proof (cases "i = 2")
        case True
        with loop_last [OF n] l Some "1.prems" have g': "g' = g1" by simp
        have "\<exists>k. slept g1 = slept g @ map (\<lambda>j. 100 * (j + 1)) [i..<k] \<and> k \<le> 2"
          using f by (intro exI [of _ 0]) simp
        then show ?thesis using f g' er l Some i by auto
      next
        case False
        then have i2: "i < 2" and ne: "i \<noteq> maxRetries - 1" using i by (simp_all add: maxRetries_def)
        from loop_retry [OF i2 n] l Some "1.prems"
        have "switchSegment_loop rs (i + 1) (g1\<lparr>slept := slept g1 @ [100 * (i + 1)]\<rparr>) = (r, g')"
          by simp
        note ih = "1.IH"(2) [OF i' n' l [symmetric] Some ne this]
        from ih obtain k where
          k: "slept g' = (slept g1 @ [100 * (i + 1)]) @ map (\<lambda>j. 100 * (j + 1)) [i + 1..<k]"
          "k \<le> 2" by auto
        from backoff_cons [OF i2 k(2)] obtain k' where
          "[100 * (i + 1)] @ map (\<lambda>j. 100 * (j + 1)) [i + 1..<k] = map (\<lambda>j. 100 * (j + 1)) [i..<k']"
          "k' \<le> 2" by blast
        with k f have "\<exists>k. slept g' = slept g @ map (\<lambda>j. 100 * (j + 1)) [i..<k] \<and> k \<le> 2"
          by (intro exI [of _ k']) simp
        moreover have "nextSegment g1 = nextSegment g" using er l Some by simp
        ultimately show ?thesis using ih f i2 by auto
      qed
    qed
  qed
qed

text \<open>When the retry loop gives up, it has made every attempt left to it.\<close>

lemma switchSegment_loop_gives_up:
  "switchSegment_loop rs i g = (Some e, g') \<Longrightarrow>
     i < 3 \<and> \<not> loadingFlag g \<and> nextSegment g = None \<and> nextSegment g' = None
     \<and> store_calls g' = store_calls g + (3 - i)
     \<and> slept g' = slept g @ map (\<lambda>j. 100 * (j + 1)) [i..<2]
     \<and> (\<exists>err. e = SwitchRetriesExhausted err)"
proof (induction rs i g arbitrary: g' rule: switchSegment_loop.induct)
  case (1 rs i g)
  have c: "i < 3 \<and> nextSegment g = None"
  proof (rule ccontr)
    assume "\<not> ?thesis"
    then have "switchSegment_loop rs i g = (None, g)"
      using loop_done [of i rs g] loop_break [of g rs i] by blast
    with "1.prems" show False by simp
  qed
  then have i: "i < 3" and n: "nextSegment g = None" by simp_all
  have i': "i < maxRetries" and n': "\<not> nextSegment g \<noteq> None"
    using i n by (simp_all add: maxRetries_def)
  obtain r g1 where l: "loadNextSegment rs g = (r, g1)" by (cases "loadNextSegment rs g")
  have "r \<noteq> None"
  proof
    assume "r = None"
    with loop_after_None [OF i n, of rs g1] l "1.prems" show False by simp
  qed
  then obtain err where r: "r = Some err" by auto
  note er = loadNextSegment_error [OF l [unfolded r]]
  note f = loadNextSegment_frame [OF l]
  show ?case
  proof (cases "i = 2")
    case True
    with loop_last [OF n l [unfolded r]] "1.prems" have "g' = g1" "e = SwitchRetriesExhausted err"
      by simp_all
    with er f n True show ?thesis by simp
  next
    case False
    then have i2: "i < 2" and ne: "i \<noteq> maxRetries - 1" using i by (simp_all add: maxRetries_def)
    from loop_retry [OF i2 n l [unfolded r]] "1.prems"
    have "switchSegment_loop rs (i + 1) (g1\<lparr>slept := slept g1 @ [100 * (i + 1)]\<rparr>) = (Some e, g')"
      by simp
    note ih = "1.IH"(2) [OF i' n' l [symmetric] r ne this]
    have "[i..<2] = i # [i + 1..<2]" using i2 by (simp add: upt_conv_Cons)
    with ih er f n i2 show ?thesis by auto
  qed
qed

section \<open>Switch: \<open>switchSegment\<close>\<close>

lemma backoff_lists:
  "k \<le> 2 \<Longrightarrow> map (\<lambda>j. 100 * (j + 1)) [0..<k] \<in> {[], [100], [100, 200 :: nat]}"
proof -
  assume "k \<le> 2"
  then have "k = 0 \<or> k = 1 \<or> k = 2" by arith
  then show ?thesis by (auto simp: numeral_2_eq_2)
qed

lemma switchSegment_effects:
  assumes "switchSegment rs g = (r, g')"
  shows "loadingFlag g' = loadingFlag g" and "step g' = step g" and "spawned g' = spawned g"
    and "store_calls g \<le> store_calls g'" and "store_calls g' \<le> store_calls g + 3"
    and "slept g' \<in> {slept g, slept g @ [100], slept g @ [100, 200]}"
    and "nextSegment g' = None"
    and "r \<noteq> None \<Longrightarrow> currentSegment g' = currentSegment g"
    and "r = None \<Longrightarrow>
           (currentSegment g' = nextSegment g \<and> nextSegment g \<noteq> None)
           \<or> (\<exists>m. 0 < sint m
                  \<and> currentSegment g' = Some \<lparr>Min_seg = m - scast (step g) + 1, Max_seg = m,
                                              Current = m - scast (step g)\<rparr>)"
proof -
  obtain r1 g1 where l: "switchSegment_loop rs 0 g = (r1, g1)"
    by (cases "switchSegment_loop rs 0 g")
  note e = switchSegment_loop_effects [OF l]
  from e obtain k where k: "slept g1 = slept g @ map (\<lambda>j. 100 * (j + 1)) [0..<k]" "k \<le> 2"
    by blast
  from backoff_lists [OF k(2)] k(1)
  have sl: "slept g1 \<in> {slept g, slept g @ [100], slept g @ [100, 200]}" by auto
  have g': "slept g' = slept g1 \<and> loadingFlag g' = loadingFlag g1 \<and> step g' = step g1
            \<and> spawned g' = spawned g1 \<and> store_calls g' = store_calls g1"
    using assms l by (auto simp: switchSegment_def split: option.splits if_splits)
  show "loadingFlag g' = loadingFlag g" "step g' = step g" "spawned g' = spawned g"
    "store_calls g \<le> store_calls g'" "store_calls g' \<le> store_calls g + 3"
    using e g' by simp_all
  show "slept g' \<in> {slept g, slept g @ [100], slept g @ [100, 200]}" using sl g' by simp
  show "nextSegment g' = None"
  proof (cases r1)
    case None
    then show ?thesis using assms l by (auto simp: switchSegment_def split: if_splits)
  next
    case (Some a)
    then show ?thesis using assms l switchSegment_loop_gives_up [of rs 0 g a g1]
      by (auto simp: switchSegment_def)
  qed
  show "currentSegment g' = currentSegment g" if "r \<noteq> None"
    using that assms l e by (auto simp: switchSegment_def split: option.splits if_splits)
  show "(currentSegment g' = nextSegment g \<and> nextSegment g \<noteq> None)
           \<or> (\<exists>m. 0 < sint m
                  \<and> currentSegment g' = Some \<lparr>Min_seg = m - scast (step g) + 1, Max_seg = m,
                                              Current = m - scast (step g)\<rparr>)" if "r = None"
    using that assms l e by (auto simp: switchSegment_def split: option.splits if_splits)
qed

lemma switchSegment_refills:
  assumes "nextSegment g = None" and "\<not> loadingFlag g" and "rs (store_calls g) = MaxID m"
    and "0 < sint m"
  shows "switchSegment rs g =
           (None, g\<lparr>currentSegment := Some \<lparr>Min_seg = m - scast (step g) + 1, Max_seg = m,
                                             Current = m - scast (step g)\<rparr>,
                      nextSegment := None,
                      store_calls := Suc (store_calls g)\<rparr>)"
proof -
  note l = loadNextSegment_valid [of g rs m, OF assms(2-4)]
  have "switchSegment_loop rs 0 g =
          (None, g\<lparr>nextSegment := Some \<lparr>Min_seg = m - scast (step g) + 1, Max_seg = m,
                                         Current = m - scast (step g)\<rparr>,
                     store_calls := Suc (store_calls g)\<rparr>)"
    using loop_after_None [OF _ assms(1) l, of 0] by simp
  then show ?thesis by (cases g) (simp add: switchSegment_def)
qed

section \<open>Dispensing: \<open>NextID\<close>\<close>

lemma NextID_done: "\<not> i < 2 \<Longrightarrow> NextID_loop rs i g = (Inl RetryFailed, g)"
  by (subst NextID_loop.simps) simp

lemma NextID_nil:
  "i < 2 \<Longrightarrow> currentSegment g = None \<Longrightarrow> NextID_loop rs i g = (Inl NoAvailableSegment, g)"
  by (subst NextID_loop.simps) simp

lemma NextID_claim:
  "i < 2 \<Longrightarrow> currentSegment g = Some s \<Longrightarrow> sint (Current s + 1) \<le> sint (Max_seg s) \<Longrightarrow>
     NextID_loop rs i g =
       (Inr (Current s + 1),
        if shouldLoadNext (g\<lparr>currentSegment := Some (s\<lparr>Current := Current s + 1\<rparr>)\<rparr>)
             (Some (s\<lparr>Current := Current s + 1\<rparr>))
        then g\<lparr>currentSegment := Some (s\<lparr>Current := Current s + 1\<rparr>),
               spawned := Suc (spawned g)\<rparr>
        else g\<lparr>currentSegment := Some (s\<lparr>Current := Current s + 1\<rparr>)\<rparr>)"
  by (subst NextID_loop.simps) (simp add: Let_def)

lemma NextID_switch_failed:
  "i < 2 \<Longrightarrow> currentSegment g = Some s \<Longrightarrow> \<not> sint (Current s + 1) \<le> sint (Max_seg s) \<Longrightarrow>
     switchSegment rs (g\<lparr>currentSegment := Some (s\<lparr>Current := Current s + 1\<rparr>)\<rparr>) = (Some e, g2) \<Longrightarrow>
     NextID_loop rs i g = (Inl (FailedToSwitch e), g2)"
  by (subst NextID_loop.simps) (simp add: Let_def)

lemma NextID_switched:
  "i < 2 \<Longrightarrow> currentSegment g = Some s \<Longrightarrow> \<not> sint (Current s + 1) \<le> sint (Max_seg s) \<Longrightarrow>
     switchSegment rs (g\<lparr>currentSegment := Some (s\<lparr>Current := Current s + 1\<rparr>)\<rparr>) = (None, g2) \<Longrightarrow>
     NextID_loop rs i g = NextID_loop rs (i + 1) g2"
  by (subst NextID_loop.simps) (simp add: Let_def)

lemma NextID_loop_live:
  assumes "i < 2" and "currentSegment g = Some s" and "sint (Current s) < sint (Max_seg s)"
  shows "fst (NextID_loop rs i g) = Inr (Current s + 1)
         \<and> currentSegment (snd (NextID_loop rs i g)) = Some (s\<lparr>Current := Current s + 1\<rparr>)"
proof -
  have "sint (Current s + 1) = sint (Current s) + 1" using assms(3) by (rule sint_succ)
  with assms(3) have "sint (Current s + 1) \<le> sint (Max_seg s)" by simp
  from NextID_claim [OF assms(1,2) this, of rs] show ?thesis by simp
qed

text \<open>
  The case analysis of one iteration of \<open>NextID\<close>, as an elimination rule.
\<close>

lemma NextID_loop_cases [consumes 1, case_names capped nil claim failed switched]:
  assumes "NextID_loop rs i g = (r, g')"
  obtains "\<not> i < 2" "r = Inl RetryFailed" "g' = g"
  | "i < 2" "currentSegment g = None" "r = Inl NoAvailableSegment" "g' = g"
  | s where "i < 2" "currentSegment g = Some s" "sint (Current s + 1) \<le> sint (Max_seg s)"
      "r = Inr (Current s + 1)"
      "currentSegment g' = Some (s\<lparr>Current := Current s + 1\<rparr>)"
      "nextSegment g' = nextSegment g" "loadingFlag g' = loadingFlag g" "step g' = step g"
      "store_calls g' = store_calls g" "slept g' = slept g"
      "spawned g' = (if shouldLoadNext (g\<lparr>currentSegment := Some (s\<lparr>Current := Current s + 1\<rparr>)\<rparr>)
                          (Some (s\<lparr>Current := Current s + 1\<rparr>))
                     then Suc (spawned g) else spawned g)"
  | s e where "i < 2" "currentSegment g = Some s" "\<not> sint (Current s + 1) \<le> sint (Max_seg s)"
      "switchSegment rs (g\<lparr>currentSegment := Some (s\<lparr>Current := Current s + 1\<rparr>)\<rparr>) = (Some e, g')"
      "r = Inl (FailedToSwitch e)"
  | s g2 where "i < 2" "currentSegment g = Some s" "\<not> sint (Current s + 1) \<le> sint (Max_seg s)"
      "switchSegment rs (g\<lparr>currentSegment := Some (s\<lparr>Current := Current s + 1\<rparr>)\<rparr>) = (None, g2)"
      "NextID_loop rs (i + 1) g2 = (r, g')"
proof (cases "i < 2")
  case False
  from NextID_done [OF False, of rs g] assms have "r = Inl RetryFailed" "g' = g" by simp_all
  with False show ?thesis by (rule that(1))
next
  case i: True
  show ?thesis
  proof (cases "currentSegment g")
    case None
    from NextID_nil [OF i None, of rs] assms have "r = Inl NoAvailableSegment" "g' = g"
      by simp_all
    with i None show ?thesis by (rule that(2))
  next
    case (Some s)
    show ?thesis
    proof (cases "sint (Current s + 1) \<le> sint (Max_seg s)")
      case True
      from NextID_claim [OF i Some True, of rs] assms
      have "r = Inr (Current s + 1)"
        and "g' = (if shouldLoadNext (g\<lparr>currentSegment := Some (s\<lparr>Current := Current s + 1\<rparr>)\<rparr>)
             (Some (s\<lparr>Current := Current s + 1\<rparr>))
        then g\<lparr>currentSegment := Some (s\<lparr>Current := Current s + 1\<rparr>),
               spawned := Suc (spawned g)\<rparr>
        else g\<lparr>currentSegment := Some (s\<lparr>Current := Current s + 1\<rparr>)\<rparr>)"
        by simp_all
      then show ?thesis by (intro that(3) [OF i Some True]) (simp_all split: if_splits)
    next
      case False
      obtain e g2 where
        sw: "switchSegment rs (g\<lparr>currentSegment := Some (s\<lparr>Current := Current s + 1\<rparr>)\<rparr>) = (e, g2)"
        by (cases "switchSegment rs (g\<lparr>currentSegment := Some (s\<lparr>Current := Current s + 1\<rparr>)\<rparr>)")
      show ?thesis
      proof (cases e)
        case None
        from NextID_switched [OF i Some False, of rs g2] sw assms None
        have "NextID_loop rs (i + 1) g2 = (r, g')" by simp
        with sw None show ?thesis by (intro that(5) [OF i Some False]) simp_all
      next
        case (Some err)
        from NextID_switch_failed [OF i \<open>currentSegment g = Some s\<close> False, of rs err g2] sw assms Some
        have "r = Inl (FailedToSwitch err)" "g' = g2" by simp_all
        with sw Some show ?thesis
          by (intro that(4) [OF i \<open>currentSegment g = Some s\<close> False]) simp_all
      qed
    qed
  qed
qed

lemma NextID_loop_Inr:
  "NextID_loop rs i g = (Inr v, g') \<Longrightarrow>
     \<exists>s'. currentSegment g' = Some s' \<and> Current s' = v \<and> sint v \<le> sint (Max_seg s')"
proof (induction "2 - i" arbitrary: i g)
  case 0
  from "0.prems" show ?case
  proof (cases rule: NextID_loop_cases)
    case (claim s)
    then show ?thesis by simp
  next
    case (switched s g2)
    with "0.hyps" show ?thesis by simp
  qed simp_all
next
  case (Suc n)
  from Suc.prems show ?case
  proof (cases rule: NextID_loop_cases)
    case (claim s)
    then show ?thesis by simp
  next
    case (switched s g2)
    with Suc.hyps(1) [of "i + 1" g2] Suc.hyps(2) show ?thesis by simp
  qed simp_all
qed

lemma switch_sleeps:
  assumes "slept g2 \<in> {slept g, slept g @ [100], slept g @ [100, 200 :: nat]}"
  obtains sl where "slept g2 = slept g @ sl" "set sl \<subseteq> {100, 200}" "sum_list sl \<le> 300"
proof -
  from assms consider "slept g2 = slept g @ []" | "slept g2 = slept g @ [100]"
    | "slept g2 = slept g @ [100, 200]" by auto
  then show ?thesis
  proof cases
    case 1 then show ?thesis by (rule that) simp_all
  next
    case 2 then show ?thesis by (rule that) simp_all
  next
    case 3 then show ?thesis by (rule that) simp_all
  qed
qed

lemma NextID_loop_effects:
  "NextID_loop rs i g = (r, g') \<Longrightarrow>
     store_calls g \<le> store_calls g' \<and> store_calls g' \<le> store_calls g + 3 * (2 - i)
     \<and> (\<exists>sl. slept g' = slept g @ sl \<and> set sl \<subseteq> {100, 200} \<and> sum_list sl \<le> 300 * (2 - i))
     \<and> step g' = step g \<and> loadingFlag g' = loadingFlag g"
proof (induction "2 - i" arbitrary: i g)
  case 0
  from "0.prems" show ?case
  proof (cases rule: NextID_loop_cases)
    case (switched s g2)
    with "0.hyps" show ?thesis by simp
  qed (use "0.hyps" in simp_all)
next
  case (Suc n)
  from Suc.prems show ?case
  proof (cases rule: NextID_loop_cases)
    case capped
    then show ?thesis by simp
  next
    case nil
    then show ?thesis by simp
  next
    case (claim s)
    then show ?thesis by simp
  next
    case (failed s e)
    note sw = switchSegment_effects [OF failed(4)]
    from switch_sleeps [OF sw(6)] obtain sl where
      sl: "slept g' = slept g @ sl" "set sl \<subseteq> {100, 200}" "sum_list sl \<le> 300" by auto
    have "\<exists>sl. slept g' = slept g @ sl \<and> set sl \<subseteq> {100, 200} \<and> sum_list sl \<le> 300 * (2 - i)"
      using sl failed(1) by (intro exI [of _ sl]) auto
    then show ?thesis using sw(1,2,4,5) failed(1) by auto
  next
    case (switched s g2)
    note sw = switchSegment_effects [OF switched(4)]
    from switch_sleeps [OF sw(6)] obtain sl where
      sl: "slept g2 = slept g @ sl" "set sl \<subseteq> {100, 200}" "sum_list sl \<le> 300" by auto
    from Suc.hyps(2) switched(1) have n: "n = 2 - (i + 1)" by simp
    note ih = Suc.hyps(1) [OF n switched(5)]
    from ih obtain sl' where
      sl': "slept g' = slept g2 @ sl'" "set sl' \<subseteq> {100, 200}" "sum_list sl' \<le> 300 * (2 - (i + 1))"
      by auto
    have "\<exists>sl. slept g' = slept g @ sl \<and> set sl \<subseteq> {100, 200} \<and> sum_list sl \<le> 300 * (2 - i)"
      using sl sl' switched(1) by (intro exI [of _ "sl @ sl'"]) auto
    then show ?thesis using ih sw(1,2,4,5) switched(1) by auto
  qed
qed

text \<open>
  C2.  When the cursor of the active segment is below \<open>Max\<close>, \<open>NextID\<close> returns the cursor
  plus one, which is the incremented cursor left in the segment, does not wrap around
  and is at most \<open>Max\<close>; if the cursor is still below \<open>Max\<close> afterwards, the next call
  returns a strictly greater value from the same segment.  And whenever \<open>NextID\<close>
  returns an identifier, it is the cursor of the segment active afterwards, the one it
  was claimed from, and at most that segment's \<open>Max\<close>.
\<close>

theorem NextID_returns_incremented_cursor:
  "(currentSegment g = Some s \<and> sint (Current s) < sint (Max_seg s) \<longrightarrow>
      fst (NextID rs g) = Inr (Current s + 1)
      \<and> sint (Current s + 1) = sint (Current s) + 1
      \<and> sint (Current s + 1) \<le> sint (Max_seg s)
      \<and> currentSegment (snd (NextID rs g)) = Some (s\<lparr>Current := Current s + 1\<rparr>)
      \<and> (sint (Current s + 1) < sint (Max_seg s) \<longrightarrow>
           fst (NextID rs (snd (NextID rs g))) = Inr (Current s + 1 + 1)
           \<and> sint (Current s + 1) < sint (Current s + 1 + 1)
           \<and> currentSegment (snd (NextID rs (snd (NextID rs g))))
               = Some (s\<lparr>Current := Current s + 1 + 1\<rparr>)))
   \<and> (NextID rs g = (Inr v, g') \<longrightarrow>
        (\<exists>s'. currentSegment g' = Some s' \<and> Current s' = v \<and> sint v \<le> sint (Max_seg s')))"
proof -
  have step: "fst (NextID rs h) = Inr (Current t + 1)
      \<and> sint (Current t + 1) = sint (Current t) + 1
      \<and> sint (Current t + 1) \<le> sint (Max_seg t)
      \<and> currentSegment (snd (NextID rs h)) = Some (t\<lparr>Current := Current t + 1\<rparr>)"
    if "currentSegment h = Some t" and "sint (Current t) < sint (Max_seg t)" for h t
  proof -
    have s: "sint (Current t + 1) = sint (Current t) + 1" using that(2) by (rule sint_succ)
    with that(2) have le: "sint (Current t + 1) \<le> sint (Max_seg t)" by simp
    obtain r h' where n: "NextID_loop rs 0 h = (r, h')" by (cases "NextID_loop rs 0 h")
    from n have "r = Inr (Current t + 1) \<and> currentSegment h' = Some (t\<lparr>Current := Current t + 1\<rparr>)"
      by (cases rule: NextID_loop_cases) (use that(1) le in simp_all)
    with n s le show ?thesis by (simp add: NextID_def)
  qed
  have first: "currentSegment g = Some s \<and> sint (Current s) < sint (Max_seg s) \<longrightarrow>
      fst (NextID rs g) = Inr (Current s + 1)
      \<and> sint (Current s + 1) = sint (Current s) + 1
      \<and> sint (Current s + 1) \<le> sint (Max_seg s)
      \<and> currentSegment (snd (NextID rs g)) = Some (s\<lparr>Current := Current s + 1\<rparr>)
      \<and> (sint (Current s + 1) < sint (Max_seg s) \<longrightarrow>
           fst (NextID rs (snd (NextID rs g))) = Inr (Current s + 1 + 1)
           \<and> sint (Current s + 1) < sint (Current s + 1 + 1)
           \<and> currentSegment (snd (NextID rs (snd (NextID rs g))))
               = Some (s\<lparr>Current := Current s + 1 + 1\<rparr>))"
  proof (intro impI, elim conjE)
    assume a: "currentSegment g = Some s" "sint (Current s) < sint (Max_seg s)"
    note one = step [OF a]
    have two: "fst (NextID rs (snd (NextID rs g))) = Inr (Current s + 1 + 1)
           \<and> sint (Current s + 1) < sint (Current s + 1 + 1)
           \<and> currentSegment (snd (NextID rs (snd (NextID rs g))))
               = Some (s\<lparr>Current := Current s + 1 + 1\<rparr>)"
      if b: "sint (Current s + 1) < sint (Max_seg s)"
    proof -
      have "currentSegment (snd (NextID rs g)) = Some (s\<lparr>Current := Current s + 1\<rparr>)"
        using one by simp
      moreover have "sint (Current (s\<lparr>Current := Current s + 1\<rparr>))
                       < sint (Max_seg (s\<lparr>Current := Current s + 1\<rparr>))" using b by simp
      ultimately show ?thesis using step [of "snd (NextID rs g)" "s\<lparr>Current := Current s + 1\<rparr>"]
        by simp
    qed
    from one two show "fst (NextID rs g) = Inr (Current s + 1)
      \<and> sint (Current s + 1) = sint (Current s) + 1
      \<and> sint (Current s + 1) \<le> sint (Max_seg s)
      \<and> currentSegment (snd (NextID rs g)) = Some (s\<lparr>Current := Current s + 1\<rparr>)
      \<and> (sint (Current s + 1) < sint (Max_seg s) \<longrightarrow>
           fst (NextID rs (snd (NextID rs g))) = Inr (Current s + 1 + 1)
           \<and> sint (Current s + 1) < sint (Current s + 1 + 1)
           \<and> currentSegment (snd (NextID rs (snd (NextID rs g))))
               = Some (s\<lparr>Current := Current s + 1 + 1\<rparr>))" by blast
  qed
  have any: "NextID rs g = (Inr v, g') \<longrightarrow>
        (\<exists>s'. currentSegment g' = Some s' \<and> Current s' = v \<and> sint v \<le> sint (Max_seg s'))"
    using NextID_loop_Inr [of rs 0 g v g'] by (simp add: NextID_def)
  from first any show ?thesis by (rule conjI)
qed

theorem NextID_returns_incremented_cursor_witness:
  "fst (NextID fresh_store (serving 998 None)) = Inr 999
   \<and> fst (NextID fresh_store (snd (NextID fresh_store (serving 998 None)))) = Inr 1000
   \<and> (\<exists>s'. currentSegment ((serving 999 None)\<lparr>spawned := 1\<rparr>) = Some s' \<and> Current s' = 999
           \<and> sint (999 :: int64) \<le> sint (Max_seg s'))"
proof -
  have a: "currentSegment (serving 998 None) = Some \<lparr>Min_seg = 1, Max_seg = 1000, Current = 998\<rparr>"
    by (simp add: serving_def)
  have b: "sint (Current \<lparr>Min_seg = 1, Max_seg = 1000, Current = 998\<rparr>)
             < sint (Max_seg \<lparr>Min_seg = 1, Max_seg = 1000, Current = 998\<rparr>)" by simp
  have c: "sint (Current \<lparr>Min_seg = 1, Max_seg = 1000, Current = 998\<rparr> + 1)
             < sint (Max_seg \<lparr>Min_seg = 1, Max_seg = 1000, Current = 998\<rparr>)" by simp
  have d: "NextID fresh_store (serving 998 None) = (Inr 999, (serving 999 None)\<lparr>spawned := 1\<rparr>)"
    by code_simp
  show ?thesis
    using NextID_returns_incremented_cursor
      [of "serving 998 None" "\<lparr>Min_seg = 1, Max_seg = 1000, Current = 998\<rparr>" fresh_store 999
          "(serving 999 None)\<lparr>spawned := 1\<rparr>"] a b c d
    by simp
qed

text \<open>
  C4.  \<open>switchSegment\<close> and \<open>NextID\<close> are total functions: each call returns.  A switch
  makes at most 3 round trips to the store and sleeps 100 ms after the first failed
  attempt and 200 ms after the second, and nothing else; when it gives up after its
  retries it has made exactly 3 round trips and slept 100 ms and 200 ms.  \<open>NextID\<close>
  runs at most two iterations, each with at most one switch: at most 6 round trips and
  600 ms of sleep; entering a third iteration it returns the error of the exhausted
  retry.
\<close>

theorem NextID_bounded_retries:
  "store_calls (snd (switchSegment rs g)) \<le> store_calls g + 3
   \<and> slept (snd (switchSegment rs g)) \<in> {slept g, slept g @ [100], slept g @ [100, 200]}
   \<and> (fst (switchSegment rs g) = Some (SwitchRetriesExhausted e) \<longrightarrow>
        store_calls (snd (switchSegment rs g)) = store_calls g + 3
        \<and> slept (snd (switchSegment rs g)) = slept g @ [100, 200])
   \<and> store_calls (snd (NextID rs g)) \<le> store_calls g + 6
   \<and> (\<exists>sl. slept (snd (NextID rs g)) = slept g @ sl \<and> set sl \<subseteq> {100, 200} \<and> sum_list sl \<le> 600)
   \<and> NextID_loop rs 2 g = (Inl RetryFailed, g)"
proof -
  obtain r g' where sw: "switchSegment rs g = (r, g')" by (cases "switchSegment rs g")
  note e = switchSegment_effects [OF sw]
  have gives_up: "store_calls g' = store_calls g + 3 \<and> slept g' = slept g @ [100, 200]"
    if "r = Some (SwitchRetriesExhausted e)"
  proof -
    obtain r1 g1 where l: "switchSegment_loop rs 0 g = (r1, g1)"
      by (cases "switchSegment_loop rs 0 g")
    with sw that have "r1 = Some (SwitchRetriesExhausted e)" "g' = g1"
      by (auto simp: switchSegment_def split: option.splits if_splits)
    with switchSegment_loop_gives_up [of rs 0 g "SwitchRetriesExhausted e" g1] l
    show ?thesis by (simp add: upt_rec numeral_2_eq_2)
  qed
  obtain r2 g2 where n: "NextID_loop rs 0 g = (r2, g2)" by (cases "NextID_loop rs 0 g")
  note ne = NextID_loop_effects [OF n]
  have "store_calls (snd (switchSegment rs g)) \<le> store_calls g + 3" using e(5) sw by simp
  moreover have "slept (snd (switchSegment rs g)) \<in> {slept g, slept g @ [100], slept g @ [100, 200]}"
    using e(6) sw by simp
  moreover have "fst (switchSegment rs g) = Some (SwitchRetriesExhausted e) \<longrightarrow>
        store_calls (snd (switchSegment rs g)) = store_calls g + 3
        \<and> slept (snd (switchSegment rs g)) = slept g @ [100, 200]"
    using gives_up sw by simp
  moreover have "store_calls (snd (NextID rs g)) \<le> store_calls g + 6"
    using ne n by (simp add: NextID_def)
  moreover have "\<exists>sl. slept (snd (NextID rs g)) = slept g @ sl \<and> set sl \<subseteq> {100, 200}
                    \<and> sum_list sl \<le> 600"
    using ne n by (simp add: NextID_def)
  moreover have "NextID_loop rs 2 g = (Inl RetryFailed, g)" by (simp add: NextID_done)
  ultimately show ?thesis by blast
qed

theorem NextID_bounded_retries_witness:
  "fst (switchSegment down_store (serving 1001 None)) = Some (SwitchRetriesExhausted LoadSegmentFailed)
   \<and> store_calls (snd (switchSegment down_store (serving 1001 None))) = 4
   \<and> slept (snd (switchSegment down_store (serving 1001 None))) = [100, 200]"
proof -
  have a: "fst (switchSegment down_store (serving 1001 None))
             = Some (SwitchRetriesExhausted LoadSegmentFailed)"
    by code_simp
  have b: "store_calls (serving 1001 None) = 1" "slept (serving 1001 None) = []"
    by (simp_all add: serving_def)
  show ?thesis
    using NextID_bounded_retries [of down_store "serving 1001 None" LoadSegmentFailed] a b
    by simp
qed

section \<open>The width of the segments\<close>

lemma fresh_width [simp]:
  "0 < sint m \<Longrightarrow> seg_width \<lparr>Min_seg = m - 999, Max_seg = m, Current = c\<rparr> = 1000"
  by (simp add: seg_width_def sint_sub_999)

lemma width_ok_loadNextSegment:
  assumes "width_ok g"
  shows "width_ok (snd (loadNextSegment rs g))"
proof -
  obtain r g' where l: "loadNextSegment rs g = (r, g')" by (cases "loadNextSegment rs g")
  note f = loadNextSegment_frame [OF l]
  have "nextSegment g' = nextSegment g
        \<or> (\<exists>m. 0 < sint m \<and> nextSegment g' = Some \<lparr>Min_seg = m - scast (step g) + 1, Max_seg = m,
                                         Current = m - scast (step g)\<rparr>)"
  proof (cases r)
    case None
    with loadNextSegment_success [of rs g g'] l show ?thesis by auto
  next
    case (Some e)
    with loadNextSegment_error [of rs g e g'] l show ?thesis by simp
  qed
  then have "case nextSegment g' of None \<Rightarrow> True | Some s \<Rightarrow> seg_width s = 1000"
    using assms by (auto simp: width_ok_def)
  then show ?thesis using assms f l by (simp add: width_ok_def)
qed

lemma width_ok_switchSegment:
  assumes "width_ok g"
  shows "width_ok (snd (switchSegment rs g))"
proof -
  obtain r g' where sw: "switchSegment rs g = (r, g')" by (cases "switchSegment rs g")
  note e = switchSegment_effects [OF sw]
  have "case currentSegment g' of None \<Rightarrow> True | Some s \<Rightarrow> seg_width s = 1000"
  proof (cases r)
    case None
    from e(9) [OF None] assms show ?thesis
      by (auto simp: width_ok_def split: option.splits)
  next
    case (Some a)
    with e(8) assms show ?thesis by (simp add: width_ok_def)
  qed
  then show ?thesis using assms e(2,7) sw by (simp add: width_ok_def)
qed

lemma width_ok_advance:
  "width_ok g \<Longrightarrow> currentSegment g = Some s \<Longrightarrow>
     width_ok (g\<lparr>currentSegment := Some (s\<lparr>Current := c\<rparr>)\<rparr>)"
  by (simp add: width_ok_def seg_width_def)

lemma width_ok_NextID_loop:
  "NextID_loop rs i g = (r, g') \<Longrightarrow> width_ok g \<Longrightarrow> width_ok g'"
proof (induction "2 - i" arbitrary: i g)
  case 0
  from "0.prems"(1) show ?case
  proof (cases rule: NextID_loop_cases)
    case capped
    with "0.prems"(2) show ?thesis by simp
  qed (use "0.hyps" in simp_all)
next
  case (Suc n)
  from Suc.prems(1) show ?case
  proof (cases rule: NextID_loop_cases)
    case capped
    with Suc.prems(2) show ?thesis by simp
  next
    case nil
    with Suc.prems(2) show ?thesis by simp
  next
    case (claim s)
    with Suc.prems(2) show ?thesis by (simp add: width_ok_def seg_width_def)
  next
    case (failed s e)
    from width_ok_switchSegment [OF width_ok_advance [OF Suc.prems(2) failed(2), of "Current s + 1"], of rs]
      failed(4) show ?thesis by simp
  next
    case (switched s g2)
    from width_ok_switchSegment [OF width_ok_advance [OF Suc.prems(2) switched(2), of "Current s + 1"], of rs]
      switched(4) have "width_ok g2" by simp
    moreover from Suc.hyps(2) switched(1) have "n = 2 - (i + 1)" by simp
    ultimately show ?thesis using Suc.hyps(1) switched(5) by blast
  qed
qed

lemma width_ok_New:
  assumes "NewSegmentIDGenerator connect rs mongoURI tag = Inr g"
  shows "width_ok g"
proof -
  let ?g0 = "\<lparr>currentSegment = None, nextSegment = None, bizTag = tag, step = 1000,
              loadingFlag = False, store_calls = 0, slept = [], spawned = 0\<rparr>"
  have "width_ok ?g0" by (simp add: width_ok_def)
  from width_ok_loadNextSegment [OF this, of rs] have w: "width_ok (snd (loadNextSegment rs ?g0))" .
  obtain r g' where l: "loadNextSegment rs ?g0 = (r, g')" by (cases "loadNextSegment rs ?g0")
  with assms have "g = g'\<lparr>currentSegment := nextSegment g', nextSegment := None\<rparr>"
    by (auto simp: NewSegmentIDGenerator_def split: if_splits option.splits)
  with w l show ?thesis by (simp add: width_ok_def)
qed

text \<open>
  C10.  A generator built by \<open>NewSegmentIDGenerator\<close> has step 1000 and an active
  segment of exactly 1000 identifiers, and a refill, a switch and \<open>NextID\<close> each keep
  the step at 1000 and both slots at segments of exactly 1000 identifiers.
\<close>

theorem width_is_invariant:
  "(NewSegmentIDGenerator connect rs mongoURI tag = Inr g0 \<longrightarrow> width_ok g0)
   \<and> (width_ok g \<longrightarrow>
        width_ok (snd (loadNextSegment rs g))
        \<and> width_ok (snd (switchSegment rs g))
        \<and> width_ok (snd (NextID rs g)))"
proof -
  have "width_ok (snd (NextID rs g))" if "width_ok g"
    using width_ok_NextID_loop [of rs 0 g "fst (NextID rs g)" "snd (NextID rs g)"] that
    by (simp add: NextID_def)
  then show ?thesis
    using width_ok_New width_ok_loadNextSegment width_ok_switchSegment by blast
qed

theorem width_is_invariant_witness:
  "width_ok (serving 0 None)
   \<and> width_ok (snd (loadNextSegment fresh_store (serving 0 None)))
   \<and> width_ok (snd (switchSegment fresh_store (serving 0 None)))
   \<and> width_ok (snd (NextID fresh_store (serving 0 None)))"
proof -
  have a: "NewSegmentIDGenerator (\<lambda>uri. True) fresh_store ''mongodb://h'' ''t'' = Inr (serving 0 None)"
    by code_simp
  show ?thesis
    using width_is_invariant [of "\<lambda>uri. True" fresh_store "''mongodb://h''" "''t''" "serving 0 None"
        "serving 0 None"] a
    by simp
qed

section \<open>Failure of the switch and recovery\<close>

text \<open>
  C9.  The active segment \<open>s\<close> is exhausted, there is no standby and the step is 1000.
  If \<open>NextID\<close> returns an error, it is the error of the failed switch, and the active
  slot still holds \<open>s\<close>, with its cursor advanced by the discarded claim, and the standby
  slot is empty.  If moreover no refill was in flight, then the next \<open>NextID\<close>, with a
  store that answers a positive \<open>m\<close>, switches to the segment ending at \<open>m\<close> and
  returns its first identifier.
\<close>

theorem failed_switch_keeps_active_segment:
  assumes "currentSegment g = Some s" and "nextSegment g = None" and "step g = 1000"
    and "sint (Max_seg s) \<le> sint (Current s)" and "sint (Current s) < 2 ^ 63 - 2"
    and "NextID rs g = (Inl e, g')"
  shows "(\<exists>e'. e = FailedToSwitch e')
         \<and> currentSegment g' = Some (s\<lparr>Current := Current s + 1\<rparr>)
         \<and> nextSegment g' = None
         \<and> (\<not> loadingFlag g \<and> rs' (store_calls g') = MaxID m \<and> 0 < sint m \<longrightarrow>
              fst (NextID rs' g') = Inr (m - 1000 + 1)
              \<and> currentSegment (snd (NextID rs' g'))
                  = Some \<lparr>Min_seg = m - 1000 + 1, Max_seg = m, Current = m - 1000 + 1\<rparr>)"
proof -
  let ?g1 = "g\<lparr>currentSegment := Some (s\<lparr>Current := Current s + 1\<rparr>)\<rparr>"
  have c1: "sint (Current s + 1) = sint (Current s) + 1" "\<not> sint (Current s + 1) \<le> sint (Max_seg s)"
    using sint_succ_exhausted [OF assms(4)] assms(5) by simp_all
  have fresh_live: "sint (Current \<lparr>Min_seg = k - 999, Max_seg = k, Current = k - 1000\<rparr>)
                      < sint (Max_seg \<lparr>Min_seg = k - 999, Max_seg = k, Current = k - 1000\<rparr>)"
    if "0 < sint k" for k :: int64
    using sint_sub_step [OF that] by simp
  from assms(6) have n: "NextID_loop rs 0 g = (Inl e, g')" by (simp add: NextID_def)
  from n have first: "switchSegment rs ?g1 = (Some (case e of FailedToSwitch e' \<Rightarrow> e'), g')
                      \<and> (\<exists>e'. e = FailedToSwitch e')"
  proof (cases rule: NextID_loop_cases)
    case nil
    with assms(1) show ?thesis by simp
  next
    case (claim t)
    then show ?thesis by simp
  next
    case (failed t e')
    with assms(1) show ?thesis by simp
  next
    case (switched t g2)
    with assms(1) have sw: "switchSegment rs ?g1 = (None, g2)" by simp
    from switchSegment_effects(9) [OF sw refl] assms(2,3)
    obtain k where k: "0 < sint k"
      "currentSegment g2 = Some \<lparr>Min_seg = k - 999, Max_seg = k, Current = k - 1000\<rparr>"
      by auto
    from NextID_loop_live [OF _ k(2) fresh_live [OF k(1)], of 1 rs] switched(5)
    show ?thesis by simp
  qed simp
  note e = switchSegment_effects [OF conjunct1 [OF first]]
  have cur: "currentSegment g' = Some (s\<lparr>Current := Current s + 1\<rparr>)" using e(8) by simp
  have recover: "fst (NextID rs' g') = Inr (m - 1000 + 1)
              \<and> currentSegment (snd (NextID rs' g'))
                  = Some \<lparr>Min_seg = m - 1000 + 1, Max_seg = m, Current = m - 1000 + 1\<rparr>"
    if h: "\<not> loadingFlag g" "rs' (store_calls g') = MaxID m" "0 < sint m"
  proof -
    let ?t = "s\<lparr>Current := Current s + 1\<rparr>"
    let ?g1' = "g'\<lparr>currentSegment := Some (?t\<lparr>Current := Current ?t + 1\<rparr>)\<rparr>"
    have "sint (Max_seg ?t) \<le> sint (Current ?t)" "sint (Current ?t) < 2 ^ 63 - 1"
      using c1 assms(4,5) by simp_all
    from sint_succ_exhausted(2) [OF this]
    have c2: "\<not> sint (Current ?t + 1) \<le> sint (Max_seg ?t)" .
    have "switchSegment rs' ?g1' =
           (None, ?g1'\<lparr>currentSegment := Some \<lparr>Min_seg = m - scast (step ?g1') + 1, Max_seg = m,
                                             Current = m - scast (step ?g1')\<rparr>,
                      nextSegment := None,
                      store_calls := Suc (store_calls ?g1')\<rparr>)"
      using e(1,7) h switchSegment_refills [of ?g1' rs' m] by simp
    from NextID_switched [OF _ cur c2 this, of 0]
    have "NextID rs' g' = NextID_loop rs' 1
            (?g1'\<lparr>currentSegment := Some \<lparr>Min_seg = m - scast (step ?g1') + 1, Max_seg = m,
                                             Current = m - scast (step ?g1')\<rparr>,
                      nextSegment := None,
                      store_calls := Suc (store_calls ?g1')\<rparr>)"
      by (simp add: NextID_def)
    moreover have "step ?g1' = 1000" using e(2) assms(3) by simp
    ultimately have eq: "NextID rs' g' = NextID_loop rs' 1
            (?g1'\<lparr>currentSegment := Some \<lparr>Min_seg = m - 999, Max_seg = m, Current = m - 1000\<rparr>,
                      nextSegment := None,
                      store_calls := Suc (store_calls ?g1')\<rparr>)"
      by simp
    show ?thesis
      unfolding eq
      using NextID_loop_live [OF _ _ fresh_live [OF h(3)], of 1
          "?g1'\<lparr>currentSegment := Some \<lparr>Min_seg = m - 999, Max_seg = m, Current = m - 1000\<rparr>,
                      nextSegment := None,
                      store_calls := Suc (store_calls ?g1')\<rparr>" rs']
      by simp
  qed
  from first cur e(7) recover show ?thesis by blast
qed

theorem failed_switch_keeps_active_segment_witness:
  "NextID down_store (serving 1000 None)
     = (Inl (FailedToSwitch (SwitchRetriesExhausted LoadSegmentFailed)),
        (serving 1001 None)\<lparr>store_calls := 4, slept := [100, 200]\<rparr>)
   \<and> currentSegment ((serving 1001 None)\<lparr>store_calls := 4, slept := [100, 200]\<rparr>)
       = Some \<lparr>Min_seg = 1, Max_seg = 1000, Current = 1001\<rparr>
   \<and> fst (NextID down_store ((serving 1001 None)\<lparr>store_calls := 4, slept := [100, 200]\<rparr>))
       = Inr 4001
   \<and> currentSegment (snd (NextID down_store
         ((serving 1001 None)\<lparr>store_calls := 4, slept := [100, 200]\<rparr>)))
       = Some \<lparr>Min_seg = 4001, Max_seg = 5000, Current = 4001\<rparr>"
proof -
  have a: "currentSegment (serving 1000 None) = Some \<lparr>Min_seg = 1, Max_seg = 1000, Current = 1000\<rparr>"
    "nextSegment (serving 1000 None) = None" "step (serving 1000 None) = 1000"
    "\<not> loadingFlag (serving 1000 None)"
    by (simp_all add: serving_def)
  have b: "sint (Max_seg \<lparr>Min_seg = 1, Max_seg = 1000, Current = 1000\<rparr>)
             \<le> sint (Current \<lparr>Min_seg = 1, Max_seg = 1000, Current = 1000\<rparr>)"
    "sint (Current \<lparr>Min_seg = 1, Max_seg = 1000, Current = 1000\<rparr>) < 2 ^ 63 - 2"
    by simp_all
  have c: "NextID down_store (serving 1000 None)
     = (Inl (FailedToSwitch (SwitchRetriesExhausted LoadSegmentFailed)),
        (serving 1001 None)\<lparr>store_calls := 4, slept := [100, 200]\<rparr>)"
    by code_simp
  have d: "down_store (store_calls ((serving 1001 None)\<lparr>store_calls := 4, slept := [100, 200]\<rparr>))
             = MaxID 5000" "0 < sint (5000 :: int64)"
    by (simp_all add: down_store_def fresh_store_def)
  show ?thesis
    using failed_switch_keeps_active_segment [OF a(1-3) b c, of down_store 5000] a(4) c d
    by (simp add: serving_def)
qed

section \<open>The prefetch trigger: \<open>shouldLoadNext\<close>\<close>

lemma ratio_1000: "float64_div_ge_08 u 1000 \<longleftrightarrow> 8 / 10 \<le> real_of_int u / 1000"
proof -
  have "(14411518807585587 / 2 ^ 54 \<le> real_of_int u / 1000) \<longleftrightarrow> (800 \<le> u)"
  proof -
    have "(14411518807585587 / 2 ^ 54 \<le> real_of_int u / 1000)
            \<longleftrightarrow> (real_of_int 14411518807585587000 \<le> real_of_int (u * 2 ^ 54))"
      by (simp add: field_simps)
    also have "\<dots> \<longleftrightarrow> (14411518807585587000 \<le> u * 2 ^ 54)" by (simp only: of_int_le_iff)
    also have "\<dots> \<longleftrightarrow> (800 \<le> u)" by (simp, arith)
    finally show ?thesis .
  qed
  moreover have "(8 / 10 \<le> real_of_int u / 1000) \<longleftrightarrow> (800 \<le> u)" by (simp add: field_simps)
  ultimately show ?thesis by (simp add: float64_div_ge_08_def)
qed

lemma float64_of_int_small: "\<bar>x\<bar> < 2 ^ 53 \<Longrightarrow> float64_of_int x = x"
  by (simp add: float64_of_int_def)

lemma shouldLoadNext_spawned [simp]:
  "shouldLoadNext (g\<lparr>spawned := k\<rparr>) x = shouldLoadNext g x"
  by (simp add: shouldLoadNext_def split: option.splits)

text \<open>
  On a segment of 1000 identifiers whose cursor lies between \<open>Min\<close> and \<open>Max\<close>, the
  test on floating-point numbers is the test on the exact ratio.
\<close>

lemma shouldLoadNext_exact:
  assumes "seg_width s = 1000" and "sint (Min_seg s) \<le> sint (Current s)"
    and "sint (Current s) \<le> sint (Max_seg s)"
  shows "shouldLoadNext g (Some s) \<longleftrightarrow>
           8 / 10 \<le> real_of_int (sint (Current s) - sint (Min_seg s) + 1)
                      / real_of_int (sint (Max_seg s) - sint (Min_seg s) + 1)
           \<and> nextSegment g = None \<and> \<not> loadingFlag g"
proof -
  have w: "sint (Max_seg s) - sint (Min_seg s) + 1 = 1000" using assms(1) by (simp add: seg_width_def)
  have total: "sint (Max_seg s - Min_seg s + 1) = 1000"
    using sint_used [of "Max_seg s" "Min_seg s"] w by simp
  have u: "1 \<le> sint (Current s) - sint (Min_seg s) + 1" "sint (Current s) - sint (Min_seg s) + 1 \<le> 1000"
    using assms(2,3) w by simp_all
  then have used: "sint (Current s - Min_seg s + 1) = sint (Current s) - sint (Min_seg s) + 1"
    by (intro sint_used) simp_all
  have "float64_of_int (sint (Current s) - sint (Min_seg s) + 1)
          = sint (Current s) - sint (Min_seg s) + 1"
    using u by (intro float64_of_int_small) simp
  moreover have "float64_of_int 1000 = 1000" by (intro float64_of_int_small) simp
  ultimately have "shouldLoadNext g (Some s) \<longleftrightarrow>
      float64_div_ge_08 (sint (Current s) - sint (Min_seg s) + 1) 1000
      \<and> nextSegment g = None \<and> \<not> loadingFlag g"
    by (simp add: shouldLoadNext_def Let_def total used)
  also have "\<dots> \<longleftrightarrow>
      8 / 10 \<le> real_of_int (sint (Current s) - sint (Min_seg s) + 1) / 1000
      \<and> nextSegment g = None \<and> \<not> loadingFlag g"
    by (simp only: ratio_1000)
  also have "(1000 :: real) = real_of_int (sint (Max_seg s) - sint (Min_seg s) + 1)"
    by (simp only: w of_int_numeral)
  finally show ?thesis .
qed

lemma cursor_ok_fresh:
  "0 < sint m \<Longrightarrow> cursor_ok \<lparr>Min_seg = m - 999, Max_seg = m, Current = m - 1000\<rparr>"
proof -
  assume a: "0 < sint m"
  have "sint m < 2 ^ 63" using sint_lt [of m] by simp
  with a show ?thesis by (simp add: cursor_ok_def sint_sub_999 sint_sub_step)
qed

lemma gen_ok_switched:
  assumes "gen_ok g" and "currentSegment g = Some s"
    and "switchSegment rs (g\<lparr>currentSegment := Some (s\<lparr>Current := c\<rparr>)\<rparr>) = (None, g2)"
  shows "gen_ok g2" and "spawned g2 = spawned g"
proof -
  note e = switchSegment_effects [OF assms(3)]
  have w: "width_ok g" using assms(1) by (simp add: gen_ok_def)
  from width_ok_switchSegment [OF width_ok_advance [OF w assms(2), of c], of rs] assms(3)
  have w2: "width_ok g2" by simp
  have "step g = 1000" using w by (simp add: width_ok_def)
  with e(9) [OF refl] assms(1)
  have "case currentSegment g2 of None \<Rightarrow> True | Some t \<Rightarrow> cursor_ok t"
    by (auto simp: gen_ok_def cursor_ok_fresh split: option.splits)
  with w2 e(7) show "gen_ok g2" by (simp add: gen_ok_def)
  show "spawned g2 = spawned g" using e(3) by simp
qed

lemma NextID_loop_trigger:
  "NextID_loop rs i g = (Inr v, g') \<Longrightarrow> gen_ok g \<Longrightarrow>
     \<exists>s'. currentSegment g' = Some s' \<and> Current s' = v \<and> seg_width s' = 1000
          \<and> sint (Min_seg s') \<le> sint v \<and> sint v \<le> sint (Max_seg s')
          \<and> spawned g' = (if shouldLoadNext g' (Some s') then Suc (spawned g) else spawned g)"
proof (induction "2 - i" arbitrary: i g)
  case 0
  from "0.prems"(1) show ?case
    by (cases rule: NextID_loop_cases) (use "0.hyps" in simp_all)
next
  case (Suc n)
  from Suc.prems(1) show ?case
  proof (cases rule: NextID_loop_cases)
    case (claim s)
    let ?s' = "s\<lparr>Current := Current s + 1\<rparr>"
    have ok: "seg_width s = 1000" "cursor_ok s"
      using Suc.prems(2) claim(2) by (simp_all add: gen_ok_def width_ok_def)
    then have "sint (Current s + 1) = sint (Current s) + 1"
      by (intro sint_succ_bound) (simp add: cursor_ok_def)
    with ok(2) have lo: "sint (Min_seg s) \<le> sint (Current s + 1)" by (simp add: cursor_ok_def)
    have "shouldLoadNext g' (Some ?s')
            = shouldLoadNext (g\<lparr>currentSegment := Some ?s'\<rparr>) (Some ?s')"
      using claim(6,7) by (simp add: shouldLoadNext_def Let_def)
    with claim ok(1) lo show ?thesis by (simp add: seg_width_def)
  next
    case (switched s g2)
    note g2 = gen_ok_switched [OF Suc.prems(2) switched(2,4)]
    from Suc.hyps(2) switched(1) have "n = 2 - (i + 1)" by simp
    from Suc.hyps(1) [OF this switched(5) g2(1)] show ?thesis unfolding g2(2) .
  qed simp_all
qed

text \<open>
  C7.  The generator holds segments of 1000 identifiers with cursors that have only
  advanced from their start.  When \<open>NextID\<close> returns an identifier \<open>v\<close>, it is the
  cursor of the active segment, and one prefetch goroutine has been dispatched if the
  ratio of \<open>v - Min + 1\<close> to \<open>Max - Min + 1\<close> is at least 0.8, the standby slot is empty
  and no refill is in flight; otherwise none has been.  The identifier returned is the
  claimed cursor in both cases.
\<close>

theorem prefetch_dispatched_iff_threshold:
  assumes "gen_ok g" and "NextID rs g = (Inr v, g')"
  shows "\<exists>s'. currentSegment g' = Some s' \<and> Current s' = v
          \<and> spawned g' =
              (if 8 / 10 \<le> real_of_int (sint v - sint (Min_seg s') + 1)
                               / real_of_int (sint (Max_seg s') - sint (Min_seg s') + 1)
                  \<and> nextSegment g' = None \<and> \<not> loadingFlag g'
               then Suc (spawned g) else spawned g)"
proof -
  from assms(2) have "NextID_loop rs 0 g = (Inr v, g')" by (simp add: NextID_def)
  from NextID_loop_trigger [OF this assms(1)] obtain s' where
    s': "currentSegment g' = Some s'" "Current s' = v" "seg_width s' = 1000"
      "sint (Min_seg s') \<le> sint v" "sint v \<le> sint (Max_seg s')"
      "spawned g' = (if shouldLoadNext g' (Some s') then Suc (spawned g) else spawned g)"
    by blast
  from shouldLoadNext_exact [of s' g'] s'(2-5)
  have "shouldLoadNext g' (Some s') \<longleftrightarrow>
           8 / 10 \<le> real_of_int (sint v - sint (Min_seg s') + 1)
                      / real_of_int (sint (Max_seg s') - sint (Min_seg s') + 1)
           \<and> nextSegment g' = None \<and> \<not> loadingFlag g'"
    by simp
  with s'(1,2,6) show ?thesis by (intro exI [of _ s']) (simp only: simp_thms)
qed

theorem prefetch_dispatched_iff_threshold_witness:
  "\<exists>s'. currentSegment ((serving 800 None)\<lparr>spawned := 1\<rparr>) = Some s' \<and> Current s' = 800
      \<and> spawned ((serving 800 None)\<lparr>spawned := 1\<rparr>) =
          (if 8 / 10 \<le> real_of_int (sint (800 :: int64) - sint (Min_seg s') + 1)
                           / real_of_int (sint (Max_seg s') - sint (Min_seg s') + 1)
              \<and> nextSegment ((serving 800 None)\<lparr>spawned := 1\<rparr>) = None
              \<and> \<not> loadingFlag ((serving 800 None)\<lparr>spawned := 1\<rparr>)
           then Suc (spawned (serving 799 None)) else spawned (serving 799 None))"
proof -
  have a: "gen_ok (serving 799 None)"
    by (simp add: gen_ok_def width_ok_def cursor_ok_def seg_width_def serving_def)
  have b: "NextID fresh_store (serving 799 None) = (Inr 800, (serving 800 None)\<lparr>spawned := 1\<rparr>)"
    by code_simp
  show ?thesis by (rule prefetch_dispatched_iff_threshold [OF a b])
qed

section \<open>Order of the identifiers across segments\<close>

text \<open>
  C3.  Two refills of the generator get \<open>a\<close> and later \<open>b\<close> from the store, the counter
  having been increased by the step in between (\<open>a + 1000 \<le> b\<close>), and install the
  segments \<open>sa\<close> and \<open>sb\<close>.  Whatever the positions \<open>ca\<close> and \<open>cb\<close> their cursors have
  advanced to, an identifier dispensed from \<open>sa\<close> is at most \<open>Max sa\<close>, which is below
  \<open>Min sb\<close>, which is at most an identifier dispensed from \<open>sb\<close>.
\<close>

theorem later_segment_dispenses_greater_ids:
  assumes "\<not> loadingFlag g" and "step g = 1000" and "rs (store_calls g) = MaxID a" and "0 < sint a"
    and "nextSegment (snd (loadNextSegment rs g)) = Some sa"
    and "\<not> loadingFlag h" and "step h = 1000" and "rs (store_calls h) = MaxID b"
    and "nextSegment (snd (loadNextSegment rs h)) = Some sb"
    and "sint a + 1000 \<le> sint b"
    and "currentSegment u = Some (sa\<lparr>Current := ca\<rparr>)"
    and "sint (Current sa) \<le> sint ca" and "sint ca < sint (Max_seg sa)"
    and "currentSegment w = Some (sb\<lparr>Current := cb\<rparr>)"
    and "sint (Current sb) \<le> sint cb" and "sint cb < sint (Max_seg sb)"
  shows "\<exists>va vb. fst (NextID rs u) = Inr va \<and> fst (NextID rs w) = Inr vb
           \<and> sint va \<le> sint (Max_seg sa) \<and> sint (Max_seg sa) < sint (Min_seg sb)
           \<and> sint (Min_seg sb) \<le> sint vb \<and> sint va < sint vb"
proof -
  have b: "0 < sint b" using assms(4,10) by simp
  have sa: "sa = \<lparr>Min_seg = a - 999, Max_seg = a, Current = a - 1000\<rparr>"
    using loadNextSegment_valid [of g rs a, OF assms(1,3,4)] assms(2,5) by simp
  have sb: "sb = \<lparr>Min_seg = b - 999, Max_seg = b, Current = b - 1000\<rparr>"
    using loadNextSegment_valid [of h rs b, OF assms(6,8) b] assms(7,9) by simp
  have live_a: "sint (Current (sa\<lparr>Current := ca\<rparr>)) < sint (Max_seg (sa\<lparr>Current := ca\<rparr>))"
    using assms(13) by simp
  have live_b: "sint (Current (sb\<lparr>Current := cb\<rparr>)) < sint (Max_seg (sb\<lparr>Current := cb\<rparr>))"
    using assms(16) by simp
  have va: "fst (NextID rs u) = Inr (ca + 1)"
    using NextID_loop_live [OF _ assms(11) live_a, of 0 rs] by (simp add: NextID_def)
  have vb: "fst (NextID rs w) = Inr (cb + 1)"
    using NextID_loop_live [OF _ assms(14) live_b, of 0 rs] by (simp add: NextID_def)
  have "sint (ca + 1) = sint ca + 1" using assms(13) by (rule sint_succ)
  then have 1: "sint (ca + 1) \<le> sint (Max_seg sa)" using assms(13) by simp
  have 2: "sint (Max_seg sa) < sint (Min_seg sb)"
    using sa sb assms(10) sint_sub_999 [OF b] by simp
  have "sint (cb + 1) = sint cb + 1" using assms(16) by (rule sint_succ)
  moreover have "sint (Current sb) = sint b - 1000" using sb sint_sub_step [OF b] by simp
  ultimately have 3: "sint (Min_seg sb) \<le> sint (cb + 1)"
    using sb assms(15) sint_sub_999 [OF b] by simp
  from va vb 1 2 3 show ?thesis by (intro exI [of _ "ca + 1"] exI [of _ "cb + 1"]) simp
qed

theorem later_segment_dispenses_greater_ids_witness:
  "\<exists>va vb. fst (NextID fresh_store (serving 0 None\<lparr>currentSegment := Some (second_segment\<lparr>Current := 1999\<rparr>)\<rparr>)) = Inr va
      \<and> fst (NextID fresh_store (serving 0 None\<lparr>currentSegment :=
             Some (\<lparr>Min_seg = 2001, Max_seg = 3000, Current = 2000\<rparr>\<lparr>Current := 2000\<rparr>)\<rparr>)) = Inr vb
      \<and> sint va \<le> sint (Max_seg second_segment)
      \<and> sint (Max_seg second_segment) < sint (Min_seg \<lparr>Min_seg = 2001, Max_seg = 3000, Current = 2000\<rparr>)
      \<and> sint (Min_seg \<lparr>Min_seg = 2001, Max_seg = 3000, Current = 2000\<rparr>) \<le> sint vb
      \<and> sint va < sint vb"
proof -
  let ?g = "serving 1000 None"
  let ?h = "(serving 0 (Some second_segment))\<lparr>store_calls := 2\<rparr>"
  let ?sb = "\<lparr>Min_seg = 2001, Max_seg = 3000, Current = 2000 :: int64\<rparr>"
  have g: "\<not> loadingFlag ?g" "step ?g = 1000" "fresh_store (store_calls ?g) = MaxID 2000"
    "0 < sint (2000 :: int64)"
    by (simp_all add: serving_def fresh_store_def)
  have sa: "nextSegment (snd (loadNextSegment fresh_store ?g)) = Some second_segment"
    by code_simp
  have h: "\<not> loadingFlag ?h" "step ?h = 1000" "fresh_store (store_calls ?h) = MaxID 3000"
    by (simp_all add: serving_def fresh_store_def)
  have sb: "nextSegment (snd (loadNextSegment fresh_store ?h)) = Some ?sb"
    by code_simp
  have m: "sint (2000 :: int64) + 1000 \<le> sint (3000 :: int64)" by simp
  have u: "currentSegment (serving 0 None\<lparr>currentSegment := Some (second_segment\<lparr>Current := 1999\<rparr>)\<rparr>)
             = Some (second_segment\<lparr>Current := 1999\<rparr>)"
    "sint (Current second_segment) \<le> sint (1999 :: int64)"
    "sint (1999 :: int64) < sint (Max_seg second_segment)"
    by (simp_all add: second_segment_def)
  have w: "currentSegment (serving 0 None\<lparr>currentSegment := Some (?sb\<lparr>Current := 2000\<rparr>)\<rparr>)
             = Some (?sb\<lparr>Current := 2000\<rparr>)"
    "sint (Current ?sb) \<le> sint (2000 :: int64)"
    "sint (2000 :: int64) < sint (Max_seg ?sb)"
    by simp_all
  show ?thesis
    by (rule later_segment_dispenses_greater_ids [OF g sa h sb m u w])
qed

section \<open>Two goroutines in the promotion\<close>

text \<open>
  Run alone on a generator with a standby segment, the four steps of the promotion do
  what \<open>switchSegment\<close> does.
\<close>

lemma promote_steps_are_switchSegment:
  assumes "nextSegment g \<noteq> None"
  shows "interleave [False, False, False, False] (g, Check_standby, pb)
           = (snd (switchSegment rs g), Returned (fst (switchSegment rs g)), pb)"
  using assms by (simp add: switchSegment_def loop_break)

text \<open>
  C1.  The promotion is not one atomic swap.  Two goroutines have both claimed a value
  beyond \<open>Max\<close> of the segment 1 .. 1000 while the standby segment 1001 .. 2000 is
  ready, and both are in the promotion.  After the store to the active slot by the
  first and before its store to the standby slot, both slots hold the same segment.
  When the second goroutine tests the standby slot before the first clears it and
  loads it after, both calls of \<open>switchSegment\<close> return without error and the active
  slot holds \<^verbatim>\<open>nil\<close>; from then on \<open>NextID\<close> fails for want of a segment and leaves
  the generator as it is.
\<close>

theorem promote_is_not_one_atomic_swap:
  "interleave [False, False, False] (serving 1002 (Some second_segment), Check_standby, Check_standby)
     = ((serving 1002 (Some second_segment))\<lparr>currentSegment := Some second_segment\<rparr>,
        Clear_standby, Check_standby)
   \<and> interleave [False, False, True, False, False, True, True, True]
       (serving 1002 (Some second_segment), Check_standby, Check_standby)
     = ((serving 1002 None)\<lparr>currentSegment := None\<rparr>, Returned None, Returned None)
   \<and> NextID fresh_store ((serving 1002 None)\<lparr>currentSegment := None\<rparr>)
     = (Inl NoAvailableSegment, (serving 1002 None)\<lparr>currentSegment := None\<rparr>)"
proof -
  have "NextID fresh_store ((serving 1002 None)\<lparr>currentSegment := None\<rparr>)
     = (Inl NoAvailableSegment, (serving 1002 None)\<lparr>currentSegment := None\<rparr>)"
    by (simp add: NextID_def NextID_nil)
  moreover have "interleave [False, False, False]
      (serving 1002 (Some second_segment), Check_standby, Check_standby)
     = ((serving 1002 (Some second_segment))\<lparr>currentSegment := Some second_segment\<rparr>,
        Clear_standby, Check_standby)"
    by (simp add: serving_def)
  moreover have "interleave [False, False, True, False, False, True, True, True]
       (serving 1002 (Some second_segment), Check_standby, Check_standby)
     = ((serving 1002 None)\<lparr>currentSegment := None\<rparr>, Returned None, Returned None)"
    by (simp add: serving_def)
  ultimately show ?thesis by blast
qed

end
